theory Spec2Isabelle
  imports Complex_Main
begin

section \<open>Python values\<close>

text \<open>
  The recipe scaler is written in Python.  Its functions raise exceptions
  (failed \<^verbatim>\<open>assert\<close> statements, errors of the built-in conversions), so every
  function of the model returns \<open>exn + 'a\<close>, with \<open>Inl\<close> for a raised exception.
  With \<^verbatim>\<open>isinstance\<close> assertions the typing of the model already guarantees
  what is asserted, and they are left out.
\<close>

datatype exn = AssertionError | OverflowError | ValueError | ZeroDivisionError | KeyError

definition py_bind :: "exn + 'a \<Rightarrow> ('a \<Rightarrow> exn + 'b) \<Rightarrow> exn + 'b" where
  "py_bind m f = (case m of Inl e \<Rightarrow> Inl e | Inr v \<Rightarrow> f v)"

subsection \<open>Floats\<close>

text \<open>
  A Python float is an IEEE 754 binary64 number: a finite value, an infinity or
  a NaN.  A finite float is modelled by its exact value; the two signed zeros
  are identified (no function of the program distinguishes them).  Every
  arithmetic operation computes the exact result and rounds it to the nearest
  float, ties to even, as the hardware does.
\<close>

datatype pyfloat = Fin real | PInf | NInf | NaN

fun log2floor :: "nat \<Rightarrow> nat" where
  "log2floor n = (if n < 2 then 0 else Suc (log2floor (n div 2)))"

declare log2floor.simps [simp del]

definition ceil_log2 :: "nat \<Rightarrow> nat" where
  "ceil_log2 n = (if n \<le> 1 then 0 else Suc (log2floor (n - 1)))"

text \<open>The binary exponent \<open>e\<close> of a positive number \<open>q\<close>: \<open>2^e \<le> q < 2^(e+1)\<close>.\<close>

definition bin_exponent :: "real \<Rightarrow> int" where
  "bin_exponent q =
     (if 1 \<le> q then int (log2floor (nat \<lfloor>q\<rfloor>))
      else - int (ceil_log2 (nat \<lceil>1 / q\<rceil>)))"

definition round_half_even :: "real \<Rightarrow> int" where
  "round_half_even x =
     (let f = \<lfloor>x\<rfloor>; d = x - of_int f
      in if d < 1 / 2 then f
         else if 1 / 2 < d then f + 1
         else if even f then f else f + 1)"

text \<open>
  Rounding a positive number to binary64: 53 significant bits, exponents from
  \<open>-1022\<close> (below that the spacing stays \<open>2^-1074\<close>: subnormal numbers), overflow to
  infinity from \<open>2^1024\<close> on.
\<close>

definition grid_exponent :: "real \<Rightarrow> int" where
  "grid_exponent q = max (bin_exponent q) (- 1022) - 52"

definition round_pos :: "real \<Rightarrow> pyfloat" where
  "round_pos q =
     (let g = grid_exponent q;
          m = round_half_even (q * 2 powi (- g));
          v = of_int m * 2 powi g
      in if 2 powi 1024 \<le> v then PInf else Fin v)"

fun fl_neg :: "pyfloat \<Rightarrow> pyfloat" where
  "fl_neg (Fin q) = Fin (- q)"
| "fl_neg PInf = NInf"
| "fl_neg NInf = PInf"
| "fl_neg NaN = NaN"

definition round_double :: "real \<Rightarrow> pyfloat" where
  "round_double q =
     (if q = 0 then Fin 0
      else if 0 < q then round_pos q
      else fl_neg (round_pos (- q)))"

definition is_double :: "real \<Rightarrow> bool" where
  "is_double q = (round_double q = Fin q)"

fun fl_lt :: "pyfloat \<Rightarrow> pyfloat \<Rightarrow> bool" where
  "fl_lt (Fin a) (Fin b) = (a < b)"
| "fl_lt (Fin a) PInf = True"
| "fl_lt NInf (Fin b) = True"
| "fl_lt NInf PInf = True"
| "fl_lt _ _ = False"

fun fl_eq :: "pyfloat \<Rightarrow> pyfloat \<Rightarrow> bool" where
  "fl_eq (Fin a) (Fin b) = (a = b)"
| "fl_eq PInf PInf = True"
| "fl_eq NInf NInf = True"
| "fl_eq _ _ = False"

fun fl_sgn :: "pyfloat \<Rightarrow> int" where
  "fl_sgn (Fin q) = (if q = 0 then 0 else if 0 < q then 1 else - 1)"
| "fl_sgn PInf = 1"
| "fl_sgn NInf = - 1"
| "fl_sgn NaN = 0"

fun fl_mul :: "pyfloat \<Rightarrow> pyfloat \<Rightarrow> pyfloat" where
  "fl_mul NaN _ = NaN"
| "fl_mul _ NaN = NaN"
| "fl_mul (Fin a) (Fin b) = round_double (a * b)"
| "fl_mul x y =
     (let s = fl_sgn x * fl_sgn y
      in if s = 0 then NaN else if 0 < s then PInf else NInf)"

fun fl_sub :: "pyfloat \<Rightarrow> pyfloat \<Rightarrow> pyfloat" where
  "fl_sub NaN _ = NaN"
| "fl_sub _ NaN = NaN"
| "fl_sub (Fin a) (Fin b) = round_double (a - b)"
| "fl_sub PInf PInf = NaN"
| "fl_sub NInf NInf = NaN"
| "fl_sub PInf _ = PInf"
| "fl_sub NInf _ = NInf"
| "fl_sub _ PInf = NInf"
| "fl_sub _ NInf = PInf"

subsection \<open>Numbers: int or float\<close>

text \<open>
  The amounts of a recipe and the scaling factor are \<^verbatim>\<open>int\<close> or \<^verbatim>\<open>float\<close>
  (\<^verbatim>\<open>isinstance(amount, (int, float))\<close>); Python's integers are unbounded.
  Comparisons between the two are exact; arithmetic converts the integer to a
  float first, which raises \<^verbatim>\<open>OverflowError\<close> when it is too large.
\<close>

datatype pynum = PyInt int | PyFloat pyfloat

fun num_val :: "pynum \<Rightarrow> pyfloat" where
  "num_val (PyInt i) = Fin (of_int i)"
| "num_val (PyFloat x) = x"

definition num_lt :: "pynum \<Rightarrow> pynum \<Rightarrow> bool" where
  "num_lt a b = fl_lt (num_val a) (num_val b)"

definition num_eq :: "pynum \<Rightarrow> pynum \<Rightarrow> bool" where
  "num_eq a b = fl_eq (num_val a) (num_val b)"

definition num_le :: "pynum \<Rightarrow> pynum \<Rightarrow> bool" where
  "num_le a b = (num_lt a b \<or> num_eq a b)"

definition finite_or_overflow :: "pyfloat \<Rightarrow> exn + pyfloat" where
  "finite_or_overflow x = (case x of Fin q \<Rightarrow> Inr (Fin q) | _ \<Rightarrow> Inl OverflowError)"

definition float_of_int :: "int \<Rightarrow> exn + pyfloat" where
  "float_of_int i = finite_or_overflow (round_double (of_int i))"

fun to_float :: "pynum \<Rightarrow> exn + pyfloat" where
  "to_float (PyInt i) = float_of_int i"
| "to_float (PyFloat x) = Inr x"

text \<open>\<^verbatim>\<open>int(x)\<close> truncates towards zero; it raises on an infinity and on a NaN.\<close>

fun py_int :: "pynum \<Rightarrow> exn + int" where
  "py_int (PyInt i) = Inr i"
| "py_int (PyFloat (Fin q)) = Inr (if 0 \<le> q then \<lfloor>q\<rfloor> else \<lceil>q\<rceil>)"
| "py_int (PyFloat PInf) = Inl OverflowError"
| "py_int (PyFloat NInf) = Inl OverflowError"
| "py_int (PyFloat NaN) = Inl ValueError"

fun num_mul :: "pynum \<Rightarrow> pynum \<Rightarrow> exn + pynum" where
  "num_mul (PyInt i) (PyInt j) = Inr (PyInt (i * j))"
| "num_mul a b =
     py_bind (to_float a) (\<lambda>x. py_bind (to_float b) (\<lambda>y. Inr (PyFloat (fl_mul x y))))"

fun num_sub :: "pynum \<Rightarrow> pynum \<Rightarrow> exn + pynum" where
  "num_sub (PyInt i) (PyInt j) = Inr (PyInt (i - j))"
| "num_sub a b =
     py_bind (to_float a) (\<lambda>x. py_bind (to_float b) (\<lambda>y. Inr (PyFloat (fl_sub x y))))"

text \<open>
  The true division \<^verbatim>\<open>a / b\<close> of two integers is the float nearest to the exact
  quotient.
\<close>

definition int_truediv :: "int \<Rightarrow> int \<Rightarrow> exn + pyfloat" where
  "int_truediv a b =
     (if b = 0 then Inl ZeroDivisionError
      else finite_or_overflow (round_double (of_int a / of_int b)))"

text \<open>
  \<^verbatim>\<open>round(x, 2)\<close>: the exact value of \<open>x\<close> rounded to two decimals, ties to even,
  and that decimal converted to the nearest float.  An integer is returned as
  it is.
\<close>

fun py_round2 :: "pynum \<Rightarrow> exn + pynum" where
  "py_round2 (PyInt i) = Inr (PyInt i)"
| "py_round2 (PyFloat (Fin q)) =
     py_bind (finite_or_overflow (round_double (of_int (round_half_even (q * 100)) / 100)))
       (\<lambda>v. Inr (PyFloat v))"
| "py_round2 (PyFloat x) = Inr (PyFloat x)"

subsection \<open>Strings\<close>

text \<open>
  A string is a list of characters; a character of the model is one of the code
  points \<open>0..255\<close>.
\<close>

definition digit_char :: "nat \<Rightarrow> char" where
  "digit_char d = ''0123456789'' ! d"

fun str_nat :: "nat \<Rightarrow> string" where
  "str_nat n = (if n < 10 then [digit_char n] else str_nat (n div 10) @ [digit_char (n mod 10)])"

declare str_nat.simps [simp del]

definition str_int :: "int \<Rightarrow> string" where
  "str_int i = (if i < 0 then CHR ''-'' # str_nat (nat (- i)) else str_nat (nat i))"

text \<open>\<^verbatim>\<open>f"{x:.2f}"\<close>: the exact value rounded to two decimals, ties to even.\<close>

definition fixed2 :: "real \<Rightarrow> string" where
  "fixed2 q =
     (let k = nat (round_half_even (\<bar>q\<bar> * 100))
      in (if q < 0 then ''-'' else []) @ str_nat (k div 100) @ ''.''
         @ [digit_char (k mod 100 div 10), digit_char (k mod 10)])"

fun format_2f :: "pynum \<Rightarrow> string" where
  "format_2f (PyInt i) = fixed2 (of_int i)"
| "format_2f (PyFloat (Fin q)) = fixed2 q"
| "format_2f (PyFloat PInf) = ''inf''"
| "format_2f (PyFloat NInf) = ''-inf''"
| "format_2f (PyFloat NaN) = ''nan''"

definition py_rstrip :: "char \<Rightarrow> string \<Rightarrow> string" where
  "py_rstrip c s = rev (dropWhile (\<lambda>x. x = c) (rev s))"

text \<open>\<^verbatim>\<open>str.isspace\<close> on one character, and \<^verbatim>\<open>str.strip()\<close>.\<close>

definition py_isspace :: "char \<Rightarrow> bool" where
  "py_isspace c = (of_char c \<in> {9, 10, 11, 12, 13, 28, 29, 30, 31, 32, 133, 160 :: nat})"

definition py_strip :: "string \<Rightarrow> string" where
  "py_strip s = rev (dropWhile py_isspace (rev (dropWhile py_isspace s)))"

subsection \<open>\<^verbatim>\<open>float(s)\<close>: parsing a string\<close>

definition is_digit :: "char \<Rightarrow> bool" where
  "is_digit c = (48 \<le> (of_char c :: nat) \<and> (of_char c :: nat) \<le> 57)"

definition digit_val :: "char \<Rightarrow> nat" where
  "digit_val c = of_char c - 48"

definition digits_val :: "string \<Rightarrow> nat" where
  "digits_val ds = foldl (\<lambda>acc c. 10 * acc + digit_val c) 0 ds"

text \<open>
  A string that is not pure ASCII is first rewritten: a white space character
  becomes a blank, any other character beyond ASCII ends the string with a
  question mark (the model has no decimal digit beyond ASCII).
\<close>

fun to_ascii :: "string \<Rightarrow> string" where
  "to_ascii [] = []"
| "to_ascii (c # cs) =
     (if (of_char c :: nat) < 127 then c # to_ascii cs
      else if py_isspace c then CHR '' '' # to_ascii cs
      else ''?'')"

definition c_isspace :: "char \<Rightarrow> bool" where
  "c_isspace c = (of_char c \<in> {9, 10, 11, 12, 13, 32 :: nat})"

text \<open>
  Underscores are allowed between two digits only; they are removed before the
  number is read.
\<close>

fun strip_underscores :: "char \<Rightarrow> string \<Rightarrow> string option" where
  "strip_underscores prev [] = (if prev = CHR ''_'' then None else Some [])"
| "strip_underscores prev (c # cs) =
     (if c = CHR ''_'' then (if is_digit prev then strip_underscores c cs else None)
      else if prev = CHR ''_'' \<and> \<not> is_digit c then None
      else map_option ((#) c) (strip_underscores c cs))"

fun parse_sign :: "string \<Rightarrow> bool \<times> string" where
  "parse_sign [] = (False, [])"
| "parse_sign (c # cs) =
     (if c = CHR ''-'' then (True, cs)
      else if c = CHR ''+'' then (False, cs)
      else (False, c # cs))"

definition signed :: "bool \<Rightarrow> pyfloat \<Rightarrow> pyfloat" where
  "signed neg x = (if neg then fl_neg x else x)"

text \<open>
  A decimal number: sign, digits, an optional point and digits (one digit at
  least), an optional exponent.  The whole string must be read.
\<close>

definition parse_exponent :: "string \<Rightarrow> int option" where
  "parse_exponent r =
     (case r of
        [] \<Rightarrow> Some 0
      | c # t \<Rightarrow>
          if c = CHR ''e'' \<or> c = CHR ''E'' then
            (let (eneg, t1) = parse_sign t
             in if t1 \<noteq> [] \<and> list_all is_digit t1
                then Some (if eneg then - int (digits_val t1) else int (digits_val t1))
                else None)
          else None)"

definition parse_decimal :: "string \<Rightarrow> pyfloat option" where
  "parse_decimal s =
     (let (neg, s1) = parse_sign s;
          ip = takeWhile is_digit s1;
          r1 = dropWhile is_digit s1;
          (fp, r2) = (case r1 of
                        [] \<Rightarrow> ([], r1)
                      | c # t \<Rightarrow> if c = CHR ''.'' then (takeWhile is_digit t, dropWhile is_digit t)
                                else ([], r1))
      in if ip = [] \<and> fp = [] then None
         else map_option
                (\<lambda>ex. signed neg (round_double (of_nat (digits_val (ip @ fp))
                                                * 10 powi (ex - int (length fp)))))
                (parse_exponent r2))"

definition ci_eq :: "char \<Rightarrow> char \<Rightarrow> bool" where
  "ci_eq c p =
     (c = p \<or> (65 \<le> (of_char c :: nat) \<and> (of_char c :: nat) \<le> 90
               \<and> (of_char c :: nat) + 32 = of_char p))"

definition parse_inf_or_nan :: "string \<Rightarrow> pyfloat option" where
  "parse_inf_or_nan s =
     (let (neg, s1) = parse_sign s
      in if list_all2 ci_eq s1 ''inf'' \<or> list_all2 ci_eq s1 ''infinity'' then Some (signed neg PInf)
         else if list_all2 ci_eq s1 ''nan'' then Some NaN
         else None)"

definition py_float :: "string \<Rightarrow> exn + pyfloat" where
  "py_float s =
     (let a = (if list_all (\<lambda>c. (of_char c :: nat) < 128) s then s else to_ascii s);
          t = rev (dropWhile c_isspace (rev (dropWhile c_isspace a)))
      in if t = [] then Inl ValueError
         else case strip_underscores (CHR 0x00) t of
                None \<Rightarrow> Inl ValueError
              | Some u \<Rightarrow>
                  (case parse_decimal u of
                     Some x \<Rightarrow> Inr x
                   | None \<Rightarrow>
                       (case parse_inf_or_nan u of
                          Some x \<Rightarrow> Inr x
                        | None \<Rightarrow> Inl ValueError)))"

section \<open>The console program\<close>

definition ORIGINAL_SERVINGS :: int where
  "ORIGINAL_SERVINGS = 12"

definition MIN_SERVINGS :: int where
  "MIN_SERVINGS = 1"

definition MAX_SERVINGS :: int where
  "MAX_SERVINGS = 100"

text \<open>The field \<^verbatim>\<open>"unit"\<close> is called \<open>unit_label\<close>: \<open>unit\<close> is a type of HOL.\<close>

record ingredient =
  amount :: pynum
  unit_label :: string

text \<open>
  A recipe is a Python \<^verbatim>\<open>dict\<close> from the ingredient's name to
  \<^verbatim>\<open>{"amount": ..., "unit": ...}\<close>.  A dict keeps its keys in insertion order, so
  it is an association list; its keys are distinct.
\<close>

type_synonym recipe = "(string \<times> ingredient) list"

definition is_dict :: "('k \<times> 'v) list \<Rightarrow> bool" where
  "is_dict d = distinct (map fst d)"

text \<open>\<^verbatim>\<open>d[k] = v\<close>: a new key goes to the end, a known key keeps its place.\<close>

fun dict_set :: "('k \<times> 'v) list \<Rightarrow> 'k \<Rightarrow> 'v \<Rightarrow> ('k \<times> 'v) list" where
  "dict_set [] k v = [(k, v)]"
| "dict_set ((k', v') # d) k v = (if k' = k then (k, v) # d else (k', v') # dict_set d k v)"

text \<open>Dicts whose keys are floats: a key is found by \<^verbatim>\<open>==\<close> on numbers.\<close>

fun dict_contains :: "(pyfloat \<times> 'v) list \<Rightarrow> pynum \<Rightarrow> bool" where
  "dict_contains [] x = False"
| "dict_contains ((k, v) # d) x = (if num_eq x (PyFloat k) then True else dict_contains d x)"

fun dict_get :: "(pyfloat \<times> 'v) list \<Rightarrow> pynum \<Rightarrow> exn + 'v" where
  "dict_get [] x = Inl KeyError"
| "dict_get ((k, v) # d) x = (if num_eq x (PyFloat k) then Inr v else dict_get d x)"

definition ORIGINAL_RECIPE :: recipe where
  "ORIGINAL_RECIPE =
     [(''flour'', \<lparr>amount = PyInt 3, unit_label = ''cups''\<rparr>),
      (''sugar'', \<lparr>amount = PyInt 2, unit_label = ''cups''\<rparr>),
      (''butter'', \<lparr>amount = PyInt 1, unit_label = ''cup''\<rparr>),
      (''eggs'', \<lparr>amount = PyInt 4, unit_label = ''large''\<rparr>),
      (''milk'', \<lparr>amount = PyFloat (Fin (3 / 2)), unit_label = ''cups''\<rparr>),
      (''baking_powder'', \<lparr>amount = PyInt 2, unit_label = ''teaspoons''\<rparr>),
      (''vanilla_extract'', \<lparr>amount = PyInt 1, unit_label = ''teaspoon''\<rparr>),
      (''salt'', \<lparr>amount = PyFloat (Fin (1 / 2)), unit_label = ''teaspoon''\<rparr>)]"

subsection \<open>\<^verbatim>\<open>format_amount\<close>\<close>

definition fractions :: "(pyfloat \<times> string) list" where
  "fractions = [(Fin (1 / 4), ''1/4''), (Fin (1 / 2), ''1/2''), (Fin (3 / 4), ''3/4'')]"

definition format_amount :: "pynum \<Rightarrow> exn + string" where
  "format_amount amt =
     (if \<not> num_lt (PyInt 0) amt then Inl AssertionError
      else py_bind (py_int amt) (\<lambda>i.
        if num_eq amt (PyInt i) then py_bind (py_int amt) (\<lambda>j. Inr (str_int j))
        else py_bind (py_int amt) (\<lambda>whole.
          py_bind (num_sub amt (PyInt whole)) (\<lambda>d.
          py_bind (py_round2 d) (\<lambda>decimal.
            if 0 < whole \<and> dict_contains fractions decimal then
              py_bind (dict_get fractions decimal) (\<lambda>fr. Inr (str_int whole @ '' '' @ fr))
            else if dict_contains fractions decimal then dict_get fractions decimal
            else Inr (py_rstrip (CHR ''.'') (py_rstrip (CHR ''0'') (format_2f amt))))))))"

subsection \<open>\<^verbatim>\<open>is_valid_servings\<close>\<close>

text \<open>
  The body of the \<^verbatim>\<open>try\<close> block: \<open>None\<close> is its early return (not a whole
  number), \<open>Some servings\<close> the integer it leaves in \<^verbatim>\<open>servings\<close>.
\<close>

definition servings_try :: "string \<Rightarrow> exn + int option" where
  "servings_try s =
     py_bind (py_float s) (\<lambda>servings.
       py_bind (py_int (PyFloat servings)) (\<lambda>i.
         if \<not> num_eq (PyFloat servings) (PyInt i) then Inr None
         else py_bind (py_int (PyFloat servings)) (\<lambda>j. Inr (Some j))))"

definition is_valid_servings :: "string \<Rightarrow> exn + (bool \<times> string \<times> int)" where
  "is_valid_servings servings_str =
     (if servings_str = [] then Inr (False, ''Servings cannot be empty'', 0)
      else
        case servings_try (py_strip servings_str) of
          Inl ValueError \<Rightarrow> Inr (False, ''Servings must be a valid number'', 0)
        | Inl e \<Rightarrow> Inl e
        | Inr None \<Rightarrow> Inr (False, ''Servings must be a whole number'', 0)
        | Inr (Some servings) \<Rightarrow>
            if servings < MIN_SERVINGS then
              Inr (False, ''Servings must be at least '' @ str_int MIN_SERVINGS, 0)
            else if MAX_SERVINGS < servings then
              Inr (False, ''Servings cannot exceed '' @ str_int MAX_SERVINGS, 0)
            else if \<not> (MIN_SERVINGS \<le> servings \<and> servings \<le> MAX_SERVINGS) then Inl AssertionError
            else Inr (True, [], servings))"

subsection \<open>\<^verbatim>\<open>calculate_scaling_factor\<close>\<close>

definition calculate_scaling_factor :: "int \<Rightarrow> int \<Rightarrow> exn + pyfloat" where
  "calculate_scaling_factor original desired =
     (if \<not> 0 < original then Inl AssertionError
      else if \<not> 0 < desired then Inl AssertionError
      else py_bind (int_truediv desired original) (\<lambda>result.
        if \<not> num_lt (PyInt 0) (PyFloat result) then Inl AssertionError
        else if \<not> num_le (PyFloat result) (PyInt 100) then Inl AssertionError
        else Inr result))"

subsection \<open>\<^verbatim>\<open>scale_recipe\<close>\<close>

text \<open>The first loop checks the recipe, the second one builds the scaled dict.\<close>

fun validate_recipe :: "recipe \<Rightarrow> exn + unit" where
  "validate_recipe [] = Inr ()"
| "validate_recipe ((ingr, details) # rest) =
     (if \<not> num_lt (PyInt 0) (amount details) then Inl AssertionError
      else validate_recipe rest)"

fun scale_loop :: "recipe \<Rightarrow> pynum \<Rightarrow> recipe \<Rightarrow> exn + recipe" where
  "scale_loop [] scaling_factor scaled_recipe = Inr scaled_recipe"
| "scale_loop ((ingr, details) # rest) scaling_factor scaled_recipe =
     py_bind (num_mul (amount details) scaling_factor) (\<lambda>scaled_amount.
       if \<not> num_lt (PyInt 0) scaled_amount then Inl AssertionError
       else if \<not> num_lt scaled_amount (PyInt 10000) then Inl AssertionError
       else scale_loop rest scaling_factor
              (dict_set scaled_recipe ingr
                 \<lparr>amount = scaled_amount, unit_label = unit_label details\<rparr>))"

definition scale_recipe :: "recipe \<Rightarrow> pynum \<Rightarrow> exn + recipe" where
  "scale_recipe rcp scaling_factor =
     (if \<not> 0 < length rcp then Inl AssertionError
      else if \<not> num_lt (PyInt 0) scaling_factor then Inl AssertionError
      else py_bind (validate_recipe rcp) (\<lambda>_.
        py_bind (scale_loop rcp scaling_factor []) (\<lambda>scaled_recipe.
          if set (map fst scaled_recipe) \<noteq> set (map fst rcp) then Inl AssertionError
          else if length scaled_recipe \<noteq> length rcp then Inl AssertionError
          else Inr scaled_recipe)))"

section \<open>The touch program\<close>

text \<open>
  The file of the touch interface defines the same constants and the same four
  functions again, before its widgets; they are embedded from that file, with an
  \<open>apk_\<close> before each name.
\<close>

definition apk_ORIGINAL_SERVINGS :: int where
  "apk_ORIGINAL_SERVINGS = 12"

definition apk_MIN_SERVINGS :: int where
  "apk_MIN_SERVINGS = 1"

definition apk_MAX_SERVINGS :: int where
  "apk_MAX_SERVINGS = 100"

definition apk_fractions :: "(pyfloat \<times> string) list" where
  "apk_fractions = [(Fin (1 / 4), ''1/4''), (Fin (1 / 2), ''1/2''), (Fin (3 / 4), ''3/4'')]"

definition apk_format_amount :: "pynum \<Rightarrow> exn + string" where
  "apk_format_amount amt =
     (if \<not> num_lt (PyInt 0) amt then Inl AssertionError
      else py_bind (py_int amt) (\<lambda>i.
        if num_eq amt (PyInt i) then py_bind (py_int amt) (\<lambda>j. Inr (str_int j))
        else py_bind (py_int amt) (\<lambda>whole.
          py_bind (num_sub amt (PyInt whole)) (\<lambda>d.
          py_bind (py_round2 d) (\<lambda>decimal.
            if 0 < whole \<and> dict_contains apk_fractions decimal then
              py_bind (dict_get apk_fractions decimal) (\<lambda>fr. Inr (str_int whole @ '' '' @ fr))
            else if dict_contains apk_fractions decimal then dict_get apk_fractions decimal
            else Inr (py_rstrip (CHR ''.'') (py_rstrip (CHR ''0'') (format_2f amt))))))))"

definition apk_servings_try :: "string \<Rightarrow> exn + int option" where
  "apk_servings_try s =
     py_bind (py_float s) (\<lambda>servings.
       py_bind (py_int (PyFloat servings)) (\<lambda>i.
         if \<not> num_eq (PyFloat servings) (PyInt i) then Inr None
         else py_bind (py_int (PyFloat servings)) (\<lambda>j. Inr (Some j))))"

definition apk_is_valid_servings :: "string \<Rightarrow> exn + (bool \<times> string \<times> int)" where
  "apk_is_valid_servings servings_str =
     (if servings_str = [] then Inr (False, ''Servings cannot be empty'', 0)
      else
        case apk_servings_try (py_strip servings_str) of
          Inl ValueError \<Rightarrow> Inr (False, ''Servings must be a valid number'', 0)
        | Inl e \<Rightarrow> Inl e
        | Inr None \<Rightarrow> Inr (False, ''Servings must be a whole number'', 0)
        | Inr (Some servings) \<Rightarrow>
            if servings < apk_MIN_SERVINGS then
              Inr (False, ''Servings must be at least '' @ str_int apk_MIN_SERVINGS, 0)
            else if apk_MAX_SERVINGS < servings then
              Inr (False, ''Servings cannot exceed '' @ str_int apk_MAX_SERVINGS, 0)
            else if \<not> (apk_MIN_SERVINGS \<le> servings \<and> servings \<le> apk_MAX_SERVINGS)
              then Inl AssertionError
            else Inr (True, [], servings))"

definition apk_calculate_scaling_factor :: "int \<Rightarrow> int \<Rightarrow> exn + pyfloat" where
  "apk_calculate_scaling_factor original desired =
     (if \<not> 0 < original then Inl AssertionError
      else if \<not> 0 < desired then Inl AssertionError
      else py_bind (int_truediv desired original) (\<lambda>result.
        if \<not> num_lt (PyInt 0) (PyFloat result) then Inl AssertionError
        else if \<not> num_le (PyFloat result) (PyInt 100) then Inl AssertionError
        else Inr result))"

fun apk_validate_recipe :: "recipe \<Rightarrow> exn + unit" where
  "apk_validate_recipe [] = Inr ()"
| "apk_validate_recipe ((ingr, details) # rest) =
     (if \<not> num_lt (PyInt 0) (amount details) then Inl AssertionError
      else apk_validate_recipe rest)"

fun apk_scale_loop :: "recipe \<Rightarrow> pynum \<Rightarrow> recipe \<Rightarrow> exn + recipe" where
  "apk_scale_loop [] scaling_factor scaled_recipe = Inr scaled_recipe"
| "apk_scale_loop ((ingr, details) # rest) scaling_factor scaled_recipe =
     py_bind (num_mul (amount details) scaling_factor) (\<lambda>scaled_amount.
       if \<not> num_lt (PyInt 0) scaled_amount then Inl AssertionError
       else if \<not> num_lt scaled_amount (PyInt 10000) then Inl AssertionError
       else apk_scale_loop rest scaling_factor
              (dict_set scaled_recipe ingr
                 \<lparr>amount = scaled_amount, unit_label = unit_label details\<rparr>))"

definition apk_scale_recipe :: "recipe \<Rightarrow> pynum \<Rightarrow> exn + recipe" where
  "apk_scale_recipe rcp scaling_factor =
     (if \<not> 0 < length rcp then Inl AssertionError
      else if \<not> num_lt (PyInt 0) scaling_factor then Inl AssertionError
      else py_bind (apk_validate_recipe rcp) (\<lambda>_.
        py_bind (apk_scale_loop rcp scaling_factor []) (\<lambda>scaled_recipe.
          if set (map fst scaled_recipe) \<noteq> set (map fst rcp) then Inl AssertionError
          else if length scaled_recipe \<noteq> length rcp then Inl AssertionError
          else Inr scaled_recipe)))"

section \<open>The formatting policy of the specification\<close>

text \<open>
  The policy as the specification words it, on the exact value of the amount: a
  whole number is written as an integer; otherwise the integer part and the
  remainder rounded to two decimals are taken, and a remainder of exactly 0.25,
  0.5 or 0.75 is written as a fraction, after the integer part when that is not
  zero; otherwise the amount is written with two decimals, trailing zeros and a
  trailing point removed.
\<close>

definition spec_fractions :: "(real \<times> string) list" where
  "spec_fractions = [(1 / 4, ''1/4''), (1 / 2, ''1/2''), (3 / 4, ''3/4'')]"

definition format_amount_spec :: "real \<Rightarrow> string" where
  "format_amount_spec a =
     (if a = of_int \<lfloor>a\<rfloor> then str_int \<lfloor>a\<rfloor>
      else
        let whole = \<lfloor>a\<rfloor>;
            remainder = of_int (round_half_even ((a - of_int whole) * 100)) / 100
        in case map_of spec_fractions remainder of
             Some fr \<Rightarrow> if whole = 0 then fr else str_int whole @ '' '' @ fr
           | None \<Rightarrow> py_rstrip (CHR ''.'') (py_rstrip (CHR ''0'') (fixed2 a)))"

section \<open>Rounding to a float\<close>

lemma log2floor_bounds:
  "0 < n \<Longrightarrow> 2 ^ log2floor n \<le> n \<and> n < 2 ^ Suc (log2floor n)"
proof (induction n rule: log2floor.induct)
  case (1 n)
  show ?case
  proof (cases "n < 2")
    case True
    with 1(2) show ?thesis by (simp add: log2floor.simps)
  next
    case False
    then have pos: "0 < n div 2" by simp
    have IH: "2 ^ log2floor (n div 2) \<le> n div 2 \<and> n div 2 < 2 ^ Suc (log2floor (n div 2))"
      using 1(1) False pos by simp
    have e: "log2floor n = Suc (log2floor (n div 2))"
      using False by (simp add: log2floor.simps)
    from IH show ?thesis unfolding e by simp linarith
  qed
qed

lemma powi_neg_nat: "(2::real) powi (- int k) = 1 / 2 ^ k"
  by (simp add: power_int_minus inverse_eq_divide)

lemma bin_exponent_bounds:
  assumes "0 < q"
  shows "2 powi (bin_exponent q) \<le> q \<and> q < 2 powi (bin_exponent q + 1)"
proof (cases "1 \<le> q")
  case True
  define n where "n = nat \<lfloor>q\<rfloor>"
  define k where "k = log2floor n"
  have npos: "0 < n" using True by (simp add: n_def)
  have b: "2 ^ k \<le> n" "n < 2 ^ Suc k"
    using log2floor_bounds[OF npos] by (simp_all add: k_def)
  have rn: "real n = of_int \<lfloor>q\<rfloor>" using True by (simp add: n_def)
  have lo: "real n \<le> q" unfolding rn by simp
  have hi: "q < real n + 1" unfolding rn by linarith
  have "Suc n \<le> 2 ^ Suc k" using b(2) by simp
  then have "real (Suc n) \<le> real (2 ^ Suc k)" by (rule of_nat_mono)
  then have hi2: "real n + 1 \<le> 2 ^ Suc k" by simp
  have "real (2 ^ k) \<le> real n" using b(1) by (rule of_nat_mono)
  then have lo2: "2 ^ k \<le> real n" by simp
  have e: "bin_exponent q = int k" using True by (simp add: bin_exponent_def n_def k_def)
  have e1: "bin_exponent q + 1 = int (Suc k)" using e by simp
  show ?thesis unfolding e1 unfolding e power_int_of_nat using lo lo2 hi hi2 by linarith
next
  case False
  with assms have q1: "q < 1" by simp
  define p where "p = 1 / q"
  have p1: "1 < p" using assms q1 by (simp add: p_def)
  define n where "n = nat \<lceil>p\<rceil>"
  have n2: "2 \<le> n" using p1 unfolding n_def by linarith
  define j where "j = log2floor (n - 1)"
  have b: "2 ^ j \<le> n - 1" "n - 1 < 2 ^ Suc j"
    using log2floor_bounds[of "n - 1"] n2 by (simp_all add: j_def)
  have rn: "real n = of_int \<lceil>p\<rceil>" using p1 by (simp add: n_def)
  have pn: "p \<le> real n" unfolding rn by simp
  have np: "real n - 1 < p" unfolding rn by linarith
  have "n \<le> 2 ^ Suc j" using b(2) n2 by simp
  then have "real n \<le> real (2 ^ Suc j)" by (rule of_nat_mono)
  then have hi: "p \<le> 2 ^ Suc j" using pn by simp
  have "real (2 ^ j) \<le> real (n - 1)" using b(1) by (rule of_nat_mono)
  then have lo: "2 ^ j < p" using np n2 by (simp add: of_nat_diff)
  have "\<not> n \<le> 1" using n2 by simp
  then have e: "bin_exponent q = - int (Suc j)"
    using False unfolding bin_exponent_def ceil_log2_def n_def j_def p_def by simp
  have e1: "bin_exponent q + 1 = - int j" using e by simp
  have A: "2 powi (- int (Suc j)) \<le> q"
  proof -
    have "1 / 2 ^ Suc j \<le> 1 / p" using hi p1 by (intro divide_left_mono) simp_all
    then show ?thesis unfolding powi_neg_nat using assms by (simp add: p_def)
  qed
  have B: "q < 2 powi (- int j)"
  proof -
    have "1 / p < 1 / 2 ^ j" using lo p1 by (intro divide_strict_left_mono) simp_all
    then show ?thesis unfolding powi_neg_nat using assms by (simp add: p_def)
  qed
  show ?thesis unfolding e1 unfolding e using A B by simp
qed

lemma bin_exponent_less: "0 < q \<Longrightarrow> q < 2 powi k \<Longrightarrow> bin_exponent q < k"
proof (rule ccontr)
  assume q: "0 < q" "q < 2 powi k" and "\<not> bin_exponent q < k"
  then have "(2::real) powi k \<le> 2 powi bin_exponent q"
    by (intro power_int_increasing) simp_all
  with bin_exponent_bounds[OF q(1)] q(2) show False by linarith
qed

lemma bin_exponent_ge: "0 < q \<Longrightarrow> 2 powi k \<le> q \<Longrightarrow> k \<le> bin_exponent q"
proof (rule ccontr)
  assume q: "0 < q" "2 powi k \<le> q" and "\<not> k \<le> bin_exponent q"
  then have "(2::real) powi (bin_exponent q + 1) \<le> 2 powi k"
    by (intro power_int_increasing) simp_all
  with bin_exponent_bounds[OF q(1)] q(2) show False by linarith
qed

lemma rhe_of_int: "round_half_even (of_int n) = n"
  by (simp add: round_half_even_def)

lemma rhe_le: "x \<le> of_int n \<Longrightarrow> round_half_even x \<le> n"
proof -
  assume a: "x \<le> of_int n"
  then have f: "\<lfloor>x\<rfloor> \<le> n" by (simp add: floor_le_iff) 
  show ?thesis
  proof (cases "\<lfloor>x\<rfloor> = n")
    case True
    then have "x = of_int n" using a by linarith
    then show ?thesis by (simp add: rhe_of_int)
  next
    case False
    with f have "\<lfloor>x\<rfloor> + 1 \<le> n" by simp
    then show ?thesis by (simp add: round_half_even_def Let_def)
  qed
qed

lemma rhe_ge: "of_int n \<le> x \<Longrightarrow> n \<le> round_half_even x"
proof -
  assume "of_int n \<le> x"
  then have "n \<le> \<lfloor>x\<rfloor>" by (simp add: le_floor_iff)
  then show ?thesis by (simp add: round_half_even_def Let_def)
qed


lemma grid_cancel: "x * 2 powi (- g) * 2 powi g = (x::real)"
  by (simp add: power_int_minus)

lemma round_pos_Fin_less: "round_pos q = Fin v \<Longrightarrow> v < 2 powi 1024"
  unfolding round_pos_def Let_def by (auto split: if_splits)

lemma round_pos_le:
  assumes "q \<le> r" "r * 2 powi (- grid_exponent q) = of_int k" "r < 2 powi 1024"
  shows "\<exists>v. round_pos q = Fin v \<and> v \<le> r"
proof -
  define g where "g = grid_exponent q"
  define m where "m = round_half_even (q * 2 powi (- g))"
  have "q * 2 powi (- g) \<le> r * 2 powi (- g)"
    using assms(1) by (intro mult_right_mono) simp_all
  then have "q * 2 powi (- g) \<le> of_int k" using assms(2) by (simp add: g_def)
  then have "m \<le> k" unfolding m_def by (rule rhe_le)
  then have "real_of_int m * 2 powi g \<le> real_of_int k * 2 powi g"
    by (intro mult_right_mono) simp_all
  also have "\<dots> = r" using grid_cancel[of r g] assms(2) by (simp add: g_def)
  finally have v: "real_of_int m * 2 powi g \<le> r" .
  with assms(3) have "\<not> 2 powi 1024 \<le> real_of_int m * 2 powi g" by linarith
  then have "round_pos q = Fin (real_of_int m * 2 powi g)"
    unfolding round_pos_def Let_def m_def g_def by (rule if_not_P)
  with v show ?thesis by blast
qed

lemma round_pos_ge:
  assumes "r \<le> q" "r * 2 powi (- grid_exponent q) = of_int k"
  shows "round_pos q = PInf \<or> (\<exists>v. round_pos q = Fin v \<and> r \<le> v)"
proof -
  define g where "g = grid_exponent q"
  define m where "m = round_half_even (q * 2 powi (- g))"
  have "r * 2 powi (- g) \<le> q * 2 powi (- g)"
    using assms(1) by (intro mult_right_mono) simp_all
  then have "of_int k \<le> q * 2 powi (- g)" using assms(2) by (simp add: g_def)
  then have "k \<le> m" unfolding m_def by (rule rhe_ge)
  then have "real_of_int k * 2 powi g \<le> real_of_int m * 2 powi g"
    by (intro mult_right_mono) simp_all
  moreover have "real_of_int k * 2 powi g = r" using grid_cancel[of r g] assms(2) by (simp add: g_def)
  ultimately have v: "r \<le> real_of_int m * 2 powi g" by simp
  have "round_pos q = (if 2 powi 1024 \<le> real_of_int m * 2 powi g then PInf
                       else Fin (real_of_int m * 2 powi g))"
    unfolding round_pos_def Let_def m_def g_def ..
  with v show ?thesis by (cases "2 powi 1024 \<le> real_of_int m * 2 powi g") simp_all
qed

lemma round_pos_exact:
  assumes "q * 2 powi (- grid_exponent q) = of_int k" "q < 2 powi 1024"
  shows "round_pos q = Fin q"
proof -
  have "round_half_even (q * 2 powi (- grid_exponent q)) = k"
    unfolding assms(1) by (rule rhe_of_int)
  moreover have "of_int k * 2 powi grid_exponent q = q"
    using grid_cancel[of q "grid_exponent q"] assms(1) by simp
  moreover have "\<not> 2 powi 1024 \<le> q" using assms(2) by simp
  ultimately show ?thesis unfolding round_pos_def Let_def by simp
qed

lemma grid_exponent_le: "0 < q \<Longrightarrow> q < 2 powi b \<Longrightarrow> - 1021 \<le> b \<Longrightarrow> grid_exponent q \<le> b - 53"
  using bin_exponent_less[of q b] by (simp add: grid_exponent_def)

lemma grid_exponent_ge: "0 < q \<Longrightarrow> 2 powi b \<le> q \<Longrightarrow> b - 52 \<le> grid_exponent q"
  using bin_exponent_ge[of q b] by (simp add: grid_exponent_def)

lemma grid_exponent_min: "- 1074 \<le> grid_exponent q"
  by (simp add: grid_exponent_def)

lemma dyadic_on_grid:
  assumes "g + int t \<le> 0"
  shows "\<exists>k. (of_int j / 2 ^ t) * 2 powi (- g) = (of_int k :: real)"
proof -
  define n where "n = nat (- g - int t)"
  have "- g = int t + int n" using assms by (simp add: n_def)
  then have "(2::real) powi (- g) = 2 ^ t * 2 ^ n"
    by (simp add: power_int_add)
  then have "(of_int j / 2 ^ t) * 2 powi (- g) = (of_int (j * 2 ^ n) :: real)" by simp
  then show ?thesis by blast
qed

lemma pow2_on_own_grid:
  assumes "0 < q" "- 1022 \<le> bin_exponent q"
  shows "2 powi (bin_exponent q) * 2 powi (- grid_exponent q) = (of_int (2 ^ 52) :: real)"
proof -
  have "grid_exponent q = bin_exponent q - 52" using assms(2) by (simp add: grid_exponent_def)
  then have "(2::real) powi (bin_exponent q) * 2 powi (- grid_exponent q) = 2 powi 52"
    by (simp flip: power_int_add)
  then show ?thesis by simp
qed

lemma round_pos_overflow:
  assumes "2 powi 1024 \<le> q"
  shows "round_pos q = PInf"
proof -
  have q: "0 < q" using assms by (rule less_le_trans[rotated]) simp
  have e: "1024 \<le> bin_exponent q" using q assms by (rule bin_exponent_ge)
  then have "- 1022 \<le> bin_exponent q" by simp
  from pow2_on_own_grid[OF q this] bin_exponent_bounds[OF q]
  have "round_pos q = PInf \<or> (\<exists>v. round_pos q = Fin v \<and> 2 powi (bin_exponent q) \<le> v)"
    by (intro round_pos_ge) simp_all
  moreover have "(2::real) powi 1024 \<le> 2 powi (bin_exponent q)"
    using e by (intro power_int_increasing) simp_all
  ultimately show ?thesis using round_pos_Fin_less[of q] by force
qed


lemma round_double_int_exact:
  assumes "\<bar>n\<bar> < 2 ^ 53"
  shows "round_double (of_int n) = Fin (of_int n)"
proof -
  have pos: "round_pos (of_int m) = Fin (of_int m)" if m: "0 < m" "m < 2 ^ 53" for m :: int
  proof -
    have "real_of_int m < real_of_int (2 ^ 53)" using m(2) by (simp only: of_int_less_iff)
    then have lt: "real_of_int m < 2 powi 53" by simp
    have q: "0 < real_of_int m" using m(1) by simp
    have "grid_exponent (of_int m) \<le> 53 - 53" using q lt by (rule grid_exponent_le) simp
    then have "grid_exponent (of_int m) + int 0 \<le> 0" by simp
    from dyadic_on_grid[OF this, of m]
    obtain k where k: "real_of_int m * 2 powi (- grid_exponent (of_int m)) = of_int k" by auto
    have "real_of_int m < 2 powi 1024"
      using lt power_int_increasing[of 53 1024 "2::real"] by linarith
    with k show ?thesis by (rule round_pos_exact)
  qed
  consider "n = 0" | "0 < n" | "n < 0" by linarith
  then show ?thesis
  proof cases
    case 1 then show ?thesis by (simp add: round_double_def)
  next
    case 2 with assms pos[of n] show ?thesis by (simp add: round_double_def)
  next
    case 3 with assms pos[of "- n"] show ?thesis by (simp add: round_double_def)
  qed
qed

section \<open>Numerals\<close>

lemma digit_cases: "d < 10 \<Longrightarrow> d \<in> {0, 1, 2, 3, 4, 5, 6, 7, 8, 9 :: nat}"
  by auto

lemma digit_char_props:
  assumes "d < 10"
  shows "is_digit (digit_char d)" and "digit_val (digit_char d) = d"
  using digit_cases[OF assms] by (auto simp: digit_char_def is_digit_def digit_val_def)

lemma is_digit_props:
  assumes "is_digit c"
  shows "c \<noteq> CHR ''_''" "c \<noteq> CHR ''-''" "c \<noteq> CHR ''+''" "c \<noteq> CHR ''.''"
    "\<not> c_isspace c" "\<not> py_isspace c" "(of_char c :: nat) < 128"
  using assms by (auto simp: is_digit_def c_isspace_def py_isspace_def)

lemma str_nat_digits: "list_all is_digit (str_nat n) \<and> str_nat n \<noteq> []"
proof (induction n rule: str_nat.induct)
  case (1 n)
  show ?case
  proof (cases "n < 10")
    case True
    then show ?thesis by (simp add: str_nat.simps digit_char_props)
  next
    case False
    have "n mod 10 < 10" by simp
    with 1 False show ?thesis by (subst (1 2) str_nat.simps) (simp add: digit_char_props)
  qed
qed

lemma digits_val_snoc: "digits_val (ds @ [c]) = 10 * digits_val ds + digit_val c"
  by (simp add: digits_val_def)

lemma digits_val_str_nat: "digits_val (str_nat n) = n"
proof (induction n rule: str_nat.induct)
  case (1 n)
  show ?case
  proof (cases "n < 10")
    case True
    then show ?thesis by (simp add: str_nat.simps digits_val_def digit_char_props)
  next
    case False
    have "n mod 10 < 10" by simp
    with 1 False show ?thesis
      by (subst str_nat.simps) (simp add: digits_val_snoc digit_char_props)
  qed
qed

lemma str_nat_pow10: "str_nat (10 ^ k) = CHR ''1'' # replicate k (CHR ''0'')"
proof (induction k)
  case 0
  show ?case by (simp add: str_nat.simps digit_char_def)
next
  case (Suc k)
  have "\<not> (10::nat) ^ Suc k < 10" by simp
  then have "str_nat (10 ^ Suc k) = str_nat (10 ^ Suc k div 10) @ [digit_char (10 ^ Suc k mod 10)]"
    by (subst str_nat.simps) simp
  also have "\<dots> = (CHR ''1'' # replicate k (CHR ''0'')) @ [CHR ''0'']"
    using Suc by (simp add: digit_char_def)
  also have "\<dots> = CHR ''1'' # replicate (Suc k) (CHR ''0'')"
    by (simp add: replicate_append_same)
  finally show ?case .
qed

lemma strip_none: "\<forall>c\<in>set s. \<not> P c \<Longrightarrow> rev (dropWhile P (rev (dropWhile P s))) = s"
proof -
  assume a: "\<forall>c\<in>set s. \<not> P c"
  then have 1: "dropWhile P s = s" by (cases s) simp_all
  from a have "\<forall>c\<in>set (rev s). \<not> P c" by simp
  then have "dropWhile P (rev s) = rev s" by (cases "rev s") simp_all
  with 1 show ?thesis by simp
qed

lemma strip_underscores_none:
  "CHR ''_'' \<notin> set s \<Longrightarrow> prev \<noteq> CHR ''_'' \<Longrightarrow> strip_underscores prev s = Some s"
  by (induction s arbitrary: prev) auto

lemma takeWhile_all: "list_all P xs \<Longrightarrow> takeWhile P xs = xs \<and> dropWhile P xs = []"
  by (induction xs) simp_all

lemma parse_decimal_digits:
  assumes "list_all is_digit ds" "ds \<noteq> []"
  shows "parse_decimal ds = Some (round_double (of_nat (digits_val ds)))"
    and "parse_decimal (CHR ''-'' # ds) = Some (fl_neg (round_double (of_nat (digits_val ds))))"
proof -
  obtain c cs where ds: "ds = c # cs" using assms(2) by (cases ds) auto
  then have c: "is_digit c" using assms(1) by simp
  have s1: "parse_sign ds = (False, ds)"
    using is_digit_props(2,3)[OF c] by (simp add: ds)
  have s2: "parse_sign (CHR ''-'' # ds) = (True, ds)" by simp
  note tw = takeWhile_all[OF assms(1)]
  show "parse_decimal ds = Some (round_double (of_nat (digits_val ds)))"
    unfolding parse_decimal_def s1 using assms(2)
    by (simp add: tw parse_exponent_def signed_def)
  show "parse_decimal (CHR ''-'' # ds) = Some (fl_neg (round_double (of_nat (digits_val ds))))"
    unfolding parse_decimal_def s2 using assms(2)
    by (simp add: tw parse_exponent_def signed_def)
qed

lemma round_double_minus: "round_double (- q) = fl_neg (round_double q)"
proof -
  have "fl_neg (fl_neg x) = x" for x by (cases x) simp_all
  then show ?thesis by (simp add: round_double_def)
qed

lemma str_int_chars: "\<forall>c\<in>set (str_int n). is_digit c \<or> c = CHR ''-''"
  using str_nat_digits by (auto simp: str_int_def list_all_iff)

lemma py_float_plain:
  assumes "\<forall>c\<in>set s. is_digit c \<or> c = CHR ''-''" "s \<noteq> []"
  shows "py_float s = (case parse_decimal s of Some x \<Rightarrow> Inr x
                       | None \<Rightarrow> (case parse_inf_or_nan s of Some x \<Rightarrow> Inr x | None \<Rightarrow> Inl ValueError))"
proof -
  have asc: "list_all (\<lambda>c. (of_char c :: nat) < 128) s"
    using assms(1) is_digit_props(7) by (auto simp: list_all_iff)
  have "\<forall>c\<in>set s. \<not> c_isspace c"
    using assms(1) is_digit_props(5) by (auto simp: c_isspace_def)
  then have st: "rev (dropWhile c_isspace (rev (dropWhile c_isspace s))) = s" by (rule strip_none)
  have "CHR ''_'' \<notin> set s" using assms(1) is_digit_props(1) by auto
  then have us: "strip_underscores (CHR 0x00) s = Some s" by (rule strip_underscores_none) simp
  have "py_float s = (if s = [] then Inl ValueError
       else case strip_underscores (CHR 0x00) s of
                None \<Rightarrow> Inl ValueError
              | Some u \<Rightarrow>
                  (case parse_decimal u of
                     Some x \<Rightarrow> Inr x
                   | None \<Rightarrow>
                       (case parse_inf_or_nan u of
                          Some x \<Rightarrow> Inr x
                        | None \<Rightarrow> Inl ValueError)))"
    unfolding py_float_def Let_def if_P[OF asc] st ..
  then show ?thesis using assms(2) by (simp add: us)
qed

lemma py_float_str_int: "py_float (str_int n) = Inr (round_double (of_int n))"
proof -
  have ne: "str_int n \<noteq> []" using str_nat_digits by (simp add: str_int_def)
  note pf = py_float_plain[OF str_int_chars ne]
  show ?thesis
  proof (cases "n < 0")
    case True
    have "of_nat (nat (- n)) = - real_of_int n" using True by simp
    then show ?thesis using True parse_decimal_digits(2)[of "str_nat (nat (- n))"] str_nat_digits pf
      by (simp add: str_int_def digits_val_str_nat round_double_minus[symmetric])
  next
    case False
    then have "of_nat (nat n) = real_of_int n" by simp
    then show ?thesis using False parse_decimal_digits(1)[of "str_nat (nat n)"] str_nat_digits pf
      by (simp add: str_int_def digits_val_str_nat)
  qed
qed

lemma py_strip_str_int: "py_strip (str_int n) = str_int n"
proof -
  have "\<forall>c\<in>set (str_int n). \<not> py_isspace c"
    using str_int_chars[of n] is_digit_props(6) by (auto simp: py_isspace_def)
  then show ?thesis unfolding py_strip_def by (rule strip_none)
qed

lemma str_int_nonempty: "str_int n \<noteq> []"
  using str_nat_digits by (simp add: str_int_def)

section \<open>Validation of the servings\<close>

lemma py_float_Nil: "py_float [] = Inl ValueError"
  by (simp add: py_float_def)

lemma servings_try_Nil: "servings_try [] = Inl ValueError"
  by (simp add: servings_try_def py_float_Nil py_bind_def)

lemma py_strip_blanks: "py_strip ''   '' = []"
  by (simp add: py_strip_def py_isspace_def)

text \<open>
  C1, as stated: every string that is empty after trimming is rejected with
  "Servings cannot be empty".  The function tests for the empty string before
  it trims, so three blanks reach \<^verbatim>\<open>float("")\<close> and are rejected as not a
  number.
\<close>

theorem C1_whitespace_only_counterexample:
  "py_strip ''   '' = [] \<and>
   is_valid_servings ''   '' = Inr (False, ''Servings must be a valid number'', 0) \<and>
   is_valid_servings ''   '' \<noteq> Inr (False, ''Servings cannot be empty'', 0)"
  by (simp add: is_valid_servings_def py_strip_blanks servings_try_Nil)

text \<open>
  C1, amended: the empty string is rejected with "Servings cannot be empty"; a
  string that is not empty and is empty after trimming is rejected with
  "Servings must be a valid number".
\<close>

theorem C1_empty_after_strip:
  "is_valid_servings [] = Inr (False, ''Servings cannot be empty'', 0) \<and>
   (\<forall>s. s \<noteq> [] \<and> py_strip s = [] \<longrightarrow>
      is_valid_servings s = Inr (False, ''Servings must be a valid number'', 0))"
  by (simp add: is_valid_servings_def servings_try_Nil)

theorem C1_empty_after_strip_witness:
  "''   '' \<noteq> [] \<and> py_strip ''   '' = [] \<and>
   is_valid_servings ''   '' = Inr (False, ''Servings must be a valid number'', 0)"
  using C1_empty_after_strip py_strip_blanks by blast

lemma py_float_inf: "py_float ''inf'' = Inr PInf"
  by (simp add: py_float_def c_isspace_def is_digit_def parse_decimal_def parse_inf_or_nan_def
      ci_eq_def signed_def)

text \<open>
  C2: the validation never ends with an uncaught exception.  The string
  \<^verbatim>\<open>"inf"\<close> is read as the float infinity, \<^verbatim>\<open>int(servings)\<close> raises
  \<^verbatim>\<open>OverflowError\<close>, and the handler catches \<^verbatim>\<open>ValueError\<close> only.
\<close>

theorem C2_inf_uncaught: "is_valid_servings ''inf'' = Inl OverflowError"
  by (simp add: is_valid_servings_def py_strip_def py_isspace_def servings_try_def py_float_inf
      py_bind_def)

lemma servings_try_str_int:
  "servings_try (str_int n) =
     py_bind (py_int (PyFloat (round_double (of_int n)))) (\<lambda>i.
       if \<not> num_eq (PyFloat (round_double (of_int n))) (PyInt i) then Inr None
       else py_bind (py_int (PyFloat (round_double (of_int n)))) (\<lambda>j. Inr (Some j)))"
  by (simp add: servings_try_def py_float_str_int py_bind_def)

lemma is_valid_servings_str_int:
  assumes "\<bar>n\<bar> < 2 ^ 53"
  shows "is_valid_servings (str_int n) =
     (if n < 1 then Inr (False, ''Servings must be at least 1'', 0)
      else if 100 < n then Inr (False, ''Servings cannot exceed 100'', 0)
      else Inr (True, [], n))"
proof -
  have "servings_try (str_int n) = Inr (Some n)"
    unfolding servings_try_str_int round_double_int_exact[OF assms]
    by (simp add: py_bind_def num_eq_def)
  moreover have "str_int 1 = ''1''" "str_int 100 = ''100''"
    by (simp_all add: str_int_def str_nat.simps digit_char_def)
  ultimately show ?thesis
    unfolding is_valid_servings_def py_strip_str_int
    by (simp add: str_int_nonempty MIN_SERVINGS_def MAX_SERVINGS_def)
qed

lemma str_int_pow10: "str_int (10 ^ k) = CHR ''1'' # replicate k (CHR ''0'')"
  by (simp add: str_int_def str_nat_pow10 nat_power_eq)

text \<open>
  C6: every numeral of an integer above 100 is rejected with "Servings cannot
  exceed 100".  The numeral \<open>10^309\<close> (a one and 309 zeros) is read as the float
  infinity, and \<^verbatim>\<open>int(servings)\<close> raises \<^verbatim>\<open>OverflowError\<close>, which is not
  caught.  (For the integers up to \<open>2^53\<close> in absolute value the claim holds:
  \<open>is_valid_servings_str_int\<close>.)
\<close>

theorem C6_huge_numeral_overflow:
  "is_valid_servings (CHR ''1'' # replicate 309 (CHR ''0'')) = Inl OverflowError"
proof -
  have s: "CHR ''1'' # replicate 309 (CHR ''0'') = str_int (10 ^ 309)"
    by (rule str_int_pow10[symmetric])
  have "(2::real) powi 1024 \<le> of_int (10 ^ 309)" by simp
  then have "round_pos (of_int (10 ^ 309)) = PInf" by (rule round_pos_overflow)
  then have "round_double (of_int (10 ^ 309)) = PInf" by (simp add: round_double_def)
  then have "servings_try (str_int (10 ^ 309)) = Inl OverflowError"
    unfolding servings_try_str_int by (simp add: py_bind_def)
  then show ?thesis
    unfolding s is_valid_servings_def py_strip_str_int by (simp add: str_int_nonempty)
qed

section \<open>The scaling factor\<close>

lemmas rd_eval = round_double_def round_pos_def grid_exponent_def bin_exponent_def ceil_log2_def
  log2floor.simps round_half_even_def Let_def

lemma rd_half: "round_double (1 / 2) = Fin (1 / 2)" by (simp add: rd_eval)
lemma rd_three_halves: "round_double (3 / 2) = Fin (3 / 2)" by (simp add: rd_eval)
lemma rd_quarter: "round_double (1 / 4) = Fin (1 / 4)" by (simp add: rd_eval)

lemma round_double_one [simp]: "round_double 1 = Fin 1"
  using round_double_int_exact[of 1] by simp





section \<open>Scaling a recipe\<close>

lemma float_of_int_small: "\<bar>n\<bar> < 2 ^ 53 \<Longrightarrow> float_of_int n = Inr (Fin (of_int n))"
  by (simp add: float_of_int_def round_double_int_exact finite_or_overflow_def)

lemma mul_one_int: "\<bar>n\<bar> < 2 ^ 53 \<Longrightarrow> num_mul (PyInt n) (PyFloat (Fin 1)) = Inr (PyFloat (Fin (of_int n)))"
  by (simp add: float_of_int_small py_bind_def round_double_int_exact)

text \<open>
  C5: at the baseline the scaling factor is exactly 1.0, and the recipe scaled
  by 1.0 has the keys of the original recipe, in the same order, each with an
  amount equal (\<^verbatim>\<open>==\<close>) to the original one and with the same unit.
\<close>

theorem C5_baseline_round_trip:
  "calculate_scaling_factor ORIGINAL_SERVINGS ORIGINAL_SERVINGS = Inr (Fin 1) \<and>
   (\<exists>scaled. scale_recipe ORIGINAL_RECIPE (PyFloat (Fin 1)) = Inr scaled \<and>
      map fst scaled = map fst ORIGINAL_RECIPE \<and>
      list_all2 (\<lambda>(k, d) (k', d'). k = k' \<and> num_eq (amount d) (amount d')
                                   \<and> unit_label d = unit_label d') scaled ORIGINAL_RECIPE)"
proof -
  have a: "calculate_scaling_factor ORIGINAL_SERVINGS ORIGINAL_SERVINGS = Inr (Fin 1)"
    by (simp add: calculate_scaling_factor_def ORIGINAL_SERVINGS_def int_truediv_def
        finite_or_overflow_def py_bind_def num_lt_def num_le_def num_eq_def)
  have m: "num_mul (PyInt 3) (PyFloat (Fin 1)) = Inr (PyFloat (Fin 3))"
    "num_mul (PyInt 2) (PyFloat (Fin 1)) = Inr (PyFloat (Fin 2))"
    "num_mul (PyInt 1) (PyFloat (Fin 1)) = Inr (PyFloat (Fin 1))"
    "num_mul (PyInt 4) (PyFloat (Fin 1)) = Inr (PyFloat (Fin 4))"
    using mul_one_int[of 3] mul_one_int[of 2] mul_one_int[of 1] mul_one_int[of 4] by simp_all
  have f: "num_mul (PyFloat (Fin (3 / 2))) (PyFloat (Fin 1)) = Inr (PyFloat (Fin (3 / 2)))"
    "num_mul (PyFloat (Fin (1 / 2))) (PyFloat (Fin 1)) = Inr (PyFloat (Fin (1 / 2)))"
    by (simp_all add: py_bind_def rd_half rd_three_halves)
  have "scale_recipe ORIGINAL_RECIPE (PyFloat (Fin 1)) =
     Inr [(''flour'', \<lparr>amount = PyFloat (Fin 3), unit_label = ''cups''\<rparr>),
      (''sugar'', \<lparr>amount = PyFloat (Fin 2), unit_label = ''cups''\<rparr>),
      (''butter'', \<lparr>amount = PyFloat (Fin 1), unit_label = ''cup''\<rparr>),
      (''eggs'', \<lparr>amount = PyFloat (Fin 4), unit_label = ''large''\<rparr>),
      (''milk'', \<lparr>amount = PyFloat (Fin (3 / 2)), unit_label = ''cups''\<rparr>),
      (''baking_powder'', \<lparr>amount = PyFloat (Fin 2), unit_label = ''teaspoons''\<rparr>),
      (''vanilla_extract'', \<lparr>amount = PyFloat (Fin 1), unit_label = ''teaspoon''\<rparr>),
      (''salt'', \<lparr>amount = PyFloat (Fin (1 / 2)), unit_label = ''teaspoon''\<rparr>)]"
    by (simp add: scale_recipe_def ORIGINAL_RECIPE_def m f py_bind_def num_lt_def
        del: num_mul.simps)
  then have "\<exists>scaled. scale_recipe ORIGINAL_RECIPE (PyFloat (Fin 1)) = Inr scaled \<and>
      map fst scaled = map fst ORIGINAL_RECIPE \<and>
      list_all2 (\<lambda>(k, d) (k', d'). k = k' \<and> num_eq (amount d) (amount d')
                                   \<and> unit_label d = unit_label d') scaled ORIGINAL_RECIPE"
    by (simp add: ORIGINAL_RECIPE_def num_eq_def)
  with a show ?thesis by blast
qed

text \<open>
  C4, as stated: every non-empty recipe with positive amounts is scaled by every
  positive factor.  The function asserts that each scaled amount is below
  10000: 5000 cups scaled by 2 fail.
\<close>

theorem C4_sanity_bound_counterexample:
  "num_lt (PyInt 0) (PyInt 5000) \<and> num_lt (PyInt 0) (PyInt 2) \<and>
   scale_recipe [(''flour'', \<lparr>amount = PyInt 5000, unit_label = ''cups''\<rparr>)] (PyInt 2)
     = Inl AssertionError"
  by (simp add: scale_recipe_def py_bind_def num_lt_def)

lemma dict_set_new: "k \<notin> fst ` set d \<Longrightarrow> dict_set d k v = d @ [(k, v)]"
  by (induction d) auto

lemma validate_recipe_ok:
  "\<forall>(k, d)\<in>set R. num_lt (PyInt 0) (amount d) \<Longrightarrow> validate_recipe R = Inr ()"
  by (induction R rule: validate_recipe.induct) auto

lemma scale_loop_ok:
  assumes "list_all2 (\<lambda>(k, d) (k', d'). k' = k \<and> unit_label d' = unit_label d
              \<and> num_mul (amount d) f = Inr (amount d')
              \<and> num_lt (PyInt 0) (amount d') \<and> num_lt (amount d') (PyInt 10000)) R S"
    and "distinct (map fst acc @ map fst R)"
  shows "scale_loop R f acc = Inr (acc @ S)"
  using assms
proof (induction R S arbitrary: acc rule: list_all2_induct)
  case Nil
  then show ?case by simp
next
  case (Cons x R y S)
  obtain k d where x: "x = (k, d)" by (cases x)
  obtain k' d' where y: "y = (k', d')" by (cases y)
  from Cons(1) have r: "k' = k" "unit_label d' = unit_label d"
    "num_mul (amount d) f = Inr (amount d')"
    "num_lt (PyInt 0) (amount d')" "num_lt (amount d') (PyInt 10000)"
    by (simp_all add: x y)
  have d': "\<lparr>amount = amount d', unit_label = unit_label d\<rparr> = d'" using r(2) by simp
  have "k \<notin> fst ` set acc" using Cons(4) by (auto simp: x)
  then have ds: "dict_set acc k d' = acc @ [(k, d')]" by (rule dict_set_new)
  have "distinct (map fst (acc @ [(k, d')]) @ map fst R)" using Cons(4) by (simp add: x)
  from Cons(3)[OF this] show ?case
    by (simp add: x y r py_bind_def d' ds)
qed

text \<open>
  C4, amended: for a non-empty recipe with strictly positive amounts and a
  strictly positive factor such that every product \<open>amount * factor\<close>, as
  computed, is strictly positive and below 10000, the function returns a recipe
  with the same keys in the same order and the same size, where every unit is
  unchanged and every amount is the product, strictly positive.
\<close>

theorem C4_scale_recipe:
  assumes "is_dict R" "R \<noteq> []"
    and "\<forall>(k, d)\<in>set R. num_lt (PyInt 0) (amount d)"
    and "num_lt (PyInt 0) f"
    and "\<forall>(k, d)\<in>set R. \<exists>p. num_mul (amount d) f = Inr p
             \<and> num_lt (PyInt 0) p \<and> num_lt p (PyInt 10000)"
  shows "\<exists>S. scale_recipe R f = Inr S \<and> map fst S = map fst R \<and> length S = length R
           \<and> list_all2 (\<lambda>(k, d) (k', d'). k' = k \<and> unit_label d' = unit_label d
                  \<and> num_mul (amount d) f = Inr (amount d')
                  \<and> num_lt (PyInt 0) (amount d')) R S"
proof -
  define g where "g = (\<lambda>(k :: string, d :: ingredient).
      (k, \<lparr>amount = (case num_mul (amount d) f of Inr p \<Rightarrow> p | Inl e \<Rightarrow> PyInt 0),
           unit_label = unit_label d\<rparr>))"
  define S where "S = map g R"
  have rel: "list_all2 (\<lambda>(k, d) (k', d'). k' = k \<and> unit_label d' = unit_label d
              \<and> num_mul (amount d) f = Inr (amount d')
              \<and> num_lt (PyInt 0) (amount d') \<and> num_lt (amount d') (PyInt 10000)) R S"
    unfolding S_def list_all2_map2 list_all2_same using assms(5)
    by (fastforce simp: g_def)
  have keys: "map fst S = map fst R" by (simp add: S_def g_def case_prod_unfold comp_def)
  have "distinct (map fst [] @ map fst R)" using assms(1) by (simp add: is_dict_def)
  with rel have "scale_loop R f [] = Inr ([] @ S)" by (rule scale_loop_ok)
  then have "scale_loop R f [] = Inr S" by simp
  moreover have "set (map fst S) = set (map fst R)" "length S = length R"
    using keys by (simp_all add: S_def)
  ultimately have "scale_recipe R f = Inr S"
    using assms(2,4) validate_recipe_ok[OF assms(3)]
    unfolding scale_recipe_def by (simp add: py_bind_def)
  moreover have "list_all2 (\<lambda>(k, d) (k', d'). k' = k \<and> unit_label d' = unit_label d
                  \<and> num_mul (amount d) f = Inr (amount d')
                  \<and> num_lt (PyInt 0) (amount d')) R S"
    using rel by (rule list_all2_mono) auto
  ultimately show ?thesis using keys by (auto simp: S_def)
qed

theorem C4_scale_recipe_witness:
  "is_dict [(''flour'', \<lparr>amount = PyInt 3, unit_label = ''cups''\<rparr>),
            (''milk'', \<lparr>amount = PyFloat (Fin (3 / 2)), unit_label = ''cups''\<rparr>)] \<and>
   num_lt (PyInt 0) (PyInt 3) \<and> num_lt (PyInt 0) (PyFloat (Fin (3 / 2))) \<and>
   num_lt (PyInt 0) (PyFloat (Fin 2)) \<and>
   num_mul (PyInt 3) (PyFloat (Fin 2)) = Inr (PyFloat (Fin 6)) \<and>
   num_mul (PyFloat (Fin (3 / 2))) (PyFloat (Fin 2)) = Inr (PyFloat (Fin 3)) \<and>
   (\<exists>S. scale_recipe [(''flour'', \<lparr>amount = PyInt 3, unit_label = ''cups''\<rparr>),
                       (''milk'', \<lparr>amount = PyFloat (Fin (3 / 2)), unit_label = ''cups''\<rparr>)]
            (PyFloat (Fin 2)) = Inr S \<and>
        map fst S = [''flour'', ''milk''] \<and> length S = 2)"
proof -
  define R where "R = [(''flour'', \<lparr>amount = PyInt 3, unit_label = ''cups''\<rparr>),
            (''milk'', \<lparr>amount = PyFloat (Fin (3 / 2)), unit_label = ''cups''\<rparr>)]"
  have r6: "round_double 6 = Fin 6" and r3: "round_double 3 = Fin 3"
    using round_double_int_exact[of 6] round_double_int_exact[of 3] by simp_all
  have m1: "num_mul (PyInt 3) (PyFloat (Fin 2)) = Inr (PyFloat (Fin 6))"
    by (simp add: float_of_int_small[of 3, simplified] py_bind_def r6)
  have m2: "num_mul (PyFloat (Fin (3 / 2))) (PyFloat (Fin 2)) = Inr (PyFloat (Fin 3))"
    by (simp add: py_bind_def r3)
  have h1: "is_dict R" by (simp add: R_def is_dict_def)
  have h2: "R \<noteq> []" by (simp add: R_def)
  have h3: "\<forall>(k, d)\<in>set R. num_lt (PyInt 0) (amount d)" by (simp add: R_def num_lt_def)
  have h4: "num_lt (PyInt 0) (PyFloat (Fin 2))" by (simp add: num_lt_def)
  have h5: "\<forall>(k, d)\<in>set R. \<exists>p. num_mul (amount d) (PyFloat (Fin 2)) = Inr p
             \<and> num_lt (PyInt 0) p \<and> num_lt p (PyInt 10000)"
    by (simp add: R_def m1 m2 num_lt_def del: num_mul.simps)
  from C4_scale_recipe[OF h1 h2 h3 h4 h5] h1 h4 m1 m2 show ?thesis
    unfolding R_def by (auto simp: num_lt_def simp del: num_mul.simps)
qed

section \<open>Formatting an amount\<close>

lemma grid_cancel': "x * 2 powi g * 2 powi (- g) = (x::real)"
  by (simp add: power_int_minus)

lemma is_double_grid:
  assumes "is_double q" "0 < q"
  shows "\<exists>k. q * 2 powi (- grid_exponent q) = real_of_int k"
proof -
  define m where "m = round_half_even (q * 2 powi (- grid_exponent q))"
  have "round_pos q = Fin q" using assms by (simp add: is_double_def round_double_def)
  then have "real_of_int m * 2 powi (grid_exponent q) = q"
    unfolding round_pos_def Let_def m_def by (simp split: if_splits)
  then have "q * 2 powi (- grid_exponent q) = real_of_int m"
    using grid_cancel'[of "real_of_int m" "grid_exponent q"] by simp
  then show ?thesis by blast
qed

lemma bin_exponent_mono:
  assumes "0 < f" "f \<le> q"
  shows "bin_exponent f \<le> bin_exponent q"
proof -
  have "2 powi (bin_exponent f) \<le> q" using bin_exponent_bounds[OF assms(1)] assms(2) by linarith
  with assms show ?thesis by (intro bin_exponent_ge) simp_all
qed

lemma grid_exponent_mono: "0 < f \<Longrightarrow> f \<le> q \<Longrightarrow> grid_exponent f \<le> grid_exponent q"
  using bin_exponent_mono[of f q] by (simp add: grid_exponent_def)

lemma double_fraction:
  assumes "is_double q" "0 < q" "q \<noteq> of_int \<lfloor>q\<rfloor>"
  shows "q < 2 powi 52" and "round_double (q - of_int \<lfloor>q\<rfloor>) = Fin (q - of_int \<lfloor>q\<rfloor>)"
proof -
  define g where "g = grid_exponent q"
  obtain k where k: "q * 2 powi (- g) = real_of_int k"
    using is_double_grid[OF assms(1,2)] by (auto simp: g_def)
  have gneg: "g < 0"
  proof (rule ccontr)
    assume "\<not> g < 0"
    then have "(2::real) powi g = of_int (2 ^ nat g)" by (simp add: power_int_nonneg_exp)
    moreover have "q = real_of_int k * 2 powi g" using grid_cancel[of q g] k by simp
    ultimately have "q = of_int (k * 2 ^ nat g)" by simp
    then have "q = of_int \<lfloor>q\<rfloor>" by (metis floor_of_int)
    with assms(3) show False by simp
  qed
  then have "bin_exponent q < 52" by (simp add: g_def grid_exponent_def)
  then have "(2::real) powi (bin_exponent q + 1) \<le> 2 powi 52"
    by (intro power_int_increasing) simp_all
  with bin_exponent_bounds[OF assms(2)] show "q < 2 powi 52" by linarith
  define f where "f = q - of_int \<lfloor>q\<rfloor>"
  have "0 \<le> real_of_int \<lfloor>q\<rfloor>" using assms(2) by simp
  then have f: "0 < f" "f < 1" "f \<le> q"
    using assms(2,3) unfolding f_def by (linarith+)
  define h where "h = grid_exponent f"
  have hg: "h \<le> g" unfolding h_def g_def using f(1,3) by (rule grid_exponent_mono)
  have "(2::real) powi (- g) = of_int (2 ^ nat (- g))"
    using gneg by (simp add: power_int_nonneg_exp)
  then have "f * 2 powi (- g) = real_of_int (k - \<lfloor>q\<rfloor> * 2 ^ nat (- g))"
    unfolding f_def using k by (simp add: algebra_simps)
  moreover have "(2::real) powi (- h) = 2 powi (- g) * of_int (2 ^ nat (g - h))"
  proof -
    define n where "n = nat (g - h)"
    have "- h = - g + int n" using hg by (simp add: n_def)
    then have "(2::real) powi (- h) = 2 powi (- g) * 2 powi (int n)"
      by (simp only: power_int_add[of "2::real", simplified])
    then show ?thesis unfolding n_def[symmetric] by simp
  qed
  ultimately have "f * 2 powi (- h) = real_of_int ((k - \<lfloor>q\<rfloor> * 2 ^ nat (- g)) * 2 ^ nat (g - h))"
    by simp
  moreover have "f < 2 powi 1024"
    using f(2) power_int_increasing[of 0 1024 "2::real"] by simp
  ultimately have "round_pos f = Fin f" unfolding h_def by (rule round_pos_exact)
  then show "round_double (q - of_int \<lfloor>q\<rfloor>) = Fin (q - of_int \<lfloor>q\<rfloor>)"
    using f(1) unfolding f_def by (simp add: round_double_def)
qed

lemma unit_grid:
  assumes "0 < x" "x < 2"
  shows "\<exists>k. (real_of_int j / 2 ^ 7) * 2 powi (- grid_exponent x) = real_of_int k"
proof -
  have "x < 2 powi 1" using assms(2) by simp
  with assms(1) have "grid_exponent x \<le> 1 - 53" by (rule grid_exponent_le) simp
  then have "grid_exponent x + int 7 \<le> 0" by simp
  then show ?thesis by (rule dyadic_on_grid)
qed

lemma rd_unit_le:
  assumes "0 < x" "x \<le> real_of_int j / 2 ^ 7" "j \<le> 128"
  shows "\<exists>v. round_double x = Fin v \<and> v \<le> real_of_int j / 2 ^ 7"
proof -
  have "real_of_int j \<le> 128" using assms(3) by simp
  then have j: "real_of_int j / 2 ^ 7 \<le> 1" by simp
  with assms(2) have "x < 2" by simp
  from unit_grid[OF assms(1) this, of j] obtain k
    where k: "(real_of_int j / 2 ^ 7) * 2 powi (- grid_exponent x) = real_of_int k" by blast
  have "real_of_int j / 2 ^ 7 < 2 powi 1024"
    using j power_int_increasing[of 0 1024 "2::real"] by simp
  with assms(2) k have "\<exists>v. round_pos x = Fin v \<and> v \<le> real_of_int j / 2 ^ 7"
    by (rule round_pos_le)
  then show ?thesis using assms(1) by (simp add: round_double_def)
qed

lemma rd_unit_ge:
  assumes "real_of_int j / 2 ^ 7 \<le> x" "x < 2" "0 < j" "round_double x = Fin v"
  shows "real_of_int j / 2 ^ 7 \<le> v"
proof -
  have x: "0 < x" using assms(1,3) by (simp add: less_le_trans[rotated])
  from unit_grid[OF x assms(2), of j] obtain k
    where k: "(real_of_int j / 2 ^ 7) * 2 powi (- grid_exponent x) = real_of_int k" by blast
  from round_pos_ge[OF assms(1) k] assms(4) x show ?thesis by (simp add: round_double_def)
qed

lemma rd_three_quarters: "round_double (3 / 4) = Fin (3 / 4)" by (simp add: rd_eval)

lemma hundredths:
  assumes "0 \<le> R" "R \<le> 100"
  shows "\<exists>v. round_double (real_of_int R / 100) = Fin v
           \<and> (v = 1 / 4 \<longleftrightarrow> R = 25) \<and> (v = 1 / 2 \<longleftrightarrow> R = 50) \<and> (v = 3 / 4 \<longleftrightarrow> R = 75)"
proof (cases "R = 0")
  case True
  then show ?thesis by (simp add: round_double_def)
next
  case False
  define x where "x = real_of_int R / 100"
  have x: "0 < x" "x \<le> 1" using assms False by (simp_all add: x_def)
  have "x \<le> real_of_int 128 / 2 ^ 7" using x(2) by simp
  from rd_unit_le[OF x(1) this] obtain v where v: "round_double x = Fin v" by auto
  have le: "v \<le> real_of_int j / 2 ^ 7" if "R * 128 \<le> j * 100" "j \<le> 128" for j
  proof -
    have "real_of_int (R * 128) \<le> real_of_int (j * 100)" using that(1) by (simp only: of_int_le_iff)
    then have "x \<le> real_of_int j / 2 ^ 7" by (simp add: x_def)
    from rd_unit_le[OF x(1) this that(2)] v show ?thesis by simp
  qed
  have ge: "real_of_int j / 2 ^ 7 \<le> v" if "j * 100 \<le> R * 128" "0 < j" for j
  proof -
    have "real_of_int (j * 100) \<le> real_of_int (R * 128)" using that(1) by (simp only: of_int_le_iff)
    then have "real_of_int j / 2 ^ 7 \<le> x" by (simp add: x_def)
    moreover have "x < 2" using x(2) by simp
    ultimately show ?thesis using that(2) v by (rule rd_unit_ge)
  qed
  have a: "v = 1 / 4 \<longleftrightarrow> R = 25"
  proof
    assume e: "v = 1 / 4"
    show "R = 25"
    proof (rule ccontr)
      assume "R \<noteq> 25"
      then consider "R \<le> 24" | "26 \<le> R" by linarith
      then show False
      proof cases
        case 1 then show ?thesis using le[of 31] e by simp
      next
        case 2 then show ?thesis using ge[of 33] e by simp
      qed
    qed
  next
    assume "R = 25"
    then have "x = 1 / 4" by (simp add: x_def)
    with v rd_quarter show "v = 1 / 4" by simp
  qed
  have b: "v = 1 / 2 \<longleftrightarrow> R = 50"
  proof
    assume e: "v = 1 / 2"
    show "R = 50"
    proof (rule ccontr)
      assume "R \<noteq> 50"
      then consider "R \<le> 49" | "51 \<le> R" by linarith
      then show False
      proof cases
        case 1 then show ?thesis using le[of 63] e by simp
      next
        case 2 then show ?thesis using ge[of 65] e by simp
      qed
    qed
  next
    assume "R = 50"
    then have "x = 1 / 2" by (simp add: x_def)
    with v rd_half show "v = 1 / 2" by simp
  qed
  have c: "v = 3 / 4 \<longleftrightarrow> R = 75"
  proof
    assume e: "v = 3 / 4"
    show "R = 75"
    proof (rule ccontr)
      assume "R \<noteq> 75"
      then consider "R \<le> 74" | "76 \<le> R" by linarith
      then show False
      proof cases
        case 1 then show ?thesis using le[of 95] e by simp
      next
        case 2 then show ?thesis using ge[of 97] e by simp
      qed
    qed
  next
    assume "R = 75"
    then have "x = 3 / 4" by (simp add: x_def)
    with v rd_three_quarters show "v = 3 / 4" by simp
  qed
  from v a b c show ?thesis unfolding x_def by blast
qed

lemma format_amount_double:
  assumes "is_double q" "0 < q"
  shows "format_amount (PyFloat (Fin q)) = Inr (format_amount_spec q)"
proof (cases "q = of_int \<lfloor>q\<rfloor>")
  case True
  then show ?thesis using assms(2)
    by (simp add: format_amount_def format_amount_spec_def num_lt_def num_eq_def py_bind_def)
next
  case False
  define w where "w = \<lfloor>q\<rfloor>"
  define f where "f = q - of_int w"
  define R where "R = round_half_even (f * 100)"
  have w0: "0 \<le> w" using assms(2) by (simp add: w_def)
  have f: "0 \<le> f" "f < 1" unfolding f_def w_def by linarith+
  have "real_of_int w \<le> q" by (simp add: w_def)
  also have "q < 2 powi 52" using assms False by (rule double_fraction(1))
  finally have "real_of_int w < real_of_int (2 ^ 52)" by simp
  then have "w < 2 ^ 52" by (simp only: of_int_less_iff)
  with w0 have "\<bar>w\<bar> < 2 ^ 53" by simp
  then have fw: "float_of_int w = Inr (Fin (of_int w))" by (rule float_of_int_small)
  have "round_double f = Fin f"
    unfolding f_def w_def using assms False by (rule double_fraction(2))
  with fw have sub: "num_sub (PyFloat (Fin q)) (PyInt w) = Inr (PyFloat (Fin f))"
    by (simp add: py_bind_def f_def)
  have "real_of_int 0 \<le> f * 100" using f(1) by simp
  then have R0: "0 \<le> R" unfolding R_def by (rule rhe_ge)
  have "f * 100 \<le> real_of_int 100" using f(2) by simp
  then have R100: "R \<le> 100" unfolding R_def by (rule rhe_le)
  from hundredths[OF R0 R100] obtain v where
    v: "round_double (real_of_int R / 100) = Fin v"
    "v = 1 / 4 \<longleftrightarrow> R = 25" "v = 1 / 2 \<longleftrightarrow> R = 50" "v = 3 / 4 \<longleftrightarrow> R = 75" by blast
  have rnd: "py_round2 (PyFloat (Fin f)) = Inr (PyFloat (Fin v))"
    by (simp add: R_def[symmetric] v(1) finite_or_overflow_def py_bind_def)
  have code: "format_amount (PyFloat (Fin q)) =
      (if 0 < w \<and> dict_contains fractions (PyFloat (Fin v)) then
              py_bind (dict_get fractions (PyFloat (Fin v))) (\<lambda>fr. Inr (str_int w @ '' '' @ fr))
       else if dict_contains fractions (PyFloat (Fin v)) then dict_get fractions (PyFloat (Fin v))
       else Inr (py_rstrip (CHR ''.'') (py_rstrip (CHR ''0'') (fixed2 q))))"
    unfolding format_amount_def using assms(2) False w0
    by (simp add: num_lt_def num_eq_def py_bind_def w_def[symmetric] sub rnd
        del: num_sub.simps py_round2.simps)
  have spec: "format_amount_spec q =
      (case map_of spec_fractions (real_of_int R / 100) of
             Some fr \<Rightarrow> if w = 0 then fr else str_int w @ '' '' @ fr
           | None \<Rightarrow> py_rstrip (CHR ''.'') (py_rstrip (CHR ''0'') (fixed2 q)))"
  proof -
    have Rq: "R = round_half_even ((q - of_int w) * 100)"
      unfolding R_def f_def ..
    have "format_amount_spec q =
      (let whole = \<lfloor>q\<rfloor>;
            remainder = of_int (round_half_even ((q - of_int whole) * 100)) / 100
        in case map_of spec_fractions remainder of
             Some fr \<Rightarrow> if whole = 0 then fr else str_int whole @ '' '' @ fr
           | None \<Rightarrow> py_rstrip (CHR ''.'') (py_rstrip (CHR ''0'') (fixed2 q)))"
      unfolding format_amount_spec_def using False by (rule if_not_P)
    then show ?thesis unfolding Let_def w_def[symmetric] Rq[symmetric] .
  qed
  have r: "real_of_int R / 100 = 1 / 4 \<longleftrightarrow> R = 25" "real_of_int R / 100 = 1 / 2 \<longleftrightarrow> R = 50"
    "real_of_int R / 100 = 3 / 4 \<longleftrightarrow> R = 75"
    by (auto simp: field_simps)
  have wz: "\<not> 0 < w \<longleftrightarrow> w = 0" using w0 by auto
  consider "R = 25" | "R = 50" | "R = 75" | "R \<noteq> 25" "R \<noteq> 50" "R \<noteq> 75" by blast
  then show ?thesis
  proof cases
    case 1
    with v have "v = 1 / 4" by simp
    with 1 wz show ?thesis unfolding code spec
      by (auto simp: fractions_def spec_fractions_def num_eq_def py_bind_def)
  next
    case 2
    with v have "v = 1 / 2" by simp
    with 2 wz show ?thesis unfolding code spec
      by (auto simp: fractions_def spec_fractions_def num_eq_def py_bind_def)
  next
    case 3
    with v have "v = 3 / 4" by simp
    with 3 wz show ?thesis unfolding code spec
      by (auto simp: fractions_def spec_fractions_def num_eq_def py_bind_def)
  next
    case 4
    with v r have "v \<noteq> 1 / 4" "v \<noteq> 1 / 2" "v \<noteq> 3 / 4"
      "real_of_int R / 100 \<noteq> 1 / 4" "real_of_int R / 100 \<noteq> 1 / 2" "real_of_int R / 100 \<noteq> 3 / 4"
      by simp_all
    then show ?thesis unfolding code spec
      by (simp add: fractions_def spec_fractions_def num_eq_def)
  qed
qed









lemma is_double_examples:
  "is_double 1" "is_double (1 / 2)" "is_double (3 / 2)" "is_double (1 / 4)"
  "is_double (1311673391471657 / 562949953421312)" "is_double (1 / 1024)"
  by (simp_all add: is_double_def rd_eval)






text \<open>
  C10: every float \<open>a\<close> with \<open>0 < a < 0.005\<close> is written "0".
\<close>

theorem C10_tiny_amount_reads_zero:
  assumes "is_double a" "0 < a" "a < 5 / 1000"
  shows "format_amount (PyFloat (Fin a)) = Inr ''0''"
proof -
  have fl: "\<lfloor>a\<rfloor> = 0" using assms(2,3) by (simp add: floor_eq_iff)
  have "\<lfloor>a * 100\<rfloor> = 0" using assms(2,3) by (simp add: floor_eq_iff)
  then have r: "round_half_even (a * 100) = 0"
    using assms(3) by (simp add: round_half_even_def)
  have "format_amount_spec a = ''0''"
    using assms(2) fl r
    by (simp add: format_amount_spec_def spec_fractions_def Let_def fixed2_def str_nat.simps
        digit_char_def py_rstrip_def)
  with format_amount_double[OF assms(1,2)] show ?thesis by simp
qed

theorem C10_tiny_amount_reads_zero_witness:
  "is_double (1 / 1024) \<and> (0::real) < 1 / 1024 \<and> (1::real) / 1024 < 5 / 1000 \<and>
   format_amount (PyFloat (Fin (1 / 1024))) = Inr ''0''"
proof -
  have h: "is_double (1 / 1024)" "(0::real) < 1 / 1024" "(1::real) / 1024 < 5 / 1000"
    by (simp_all add: is_double_examples)
  from C10_tiny_amount_reads_zero[OF h] h show ?thesis by simp
qed

section \<open>The two programs\<close>

text \<open>
  C9: the four functions of the touch program return what the functions of the
  console program return, on every input, exceptions included.
\<close>

theorem C9_apk_same_as_console:
  "apk_is_valid_servings s = is_valid_servings s \<and>
   apk_calculate_scaling_factor original desired = calculate_scaling_factor original desired \<and>
   apk_scale_recipe rcp f = scale_recipe rcp f \<and>
   apk_format_amount a = format_amount a"
proof -
  have v: "apk_validate_recipe r = validate_recipe r" for r
    by (induction r rule: validate_recipe.induct) simp_all
  have l: "apk_scale_loop r f acc = scale_loop r f acc" for r acc
    by (induction r f acc rule: scale_loop.induct) (simp_all add: py_bind_def split: sum.splits)
  have t: "apk_servings_try = servings_try"
    by (rule ext) (simp add: apk_servings_try_def servings_try_def)
  have a: "apk_is_valid_servings s = is_valid_servings s"
    unfolding apk_is_valid_servings_def is_valid_servings_def t
      apk_MIN_SERVINGS_def MIN_SERVINGS_def apk_MAX_SERVINGS_def MAX_SERVINGS_def ..
  have b: "apk_calculate_scaling_factor original desired = calculate_scaling_factor original desired"
    unfolding apk_calculate_scaling_factor_def calculate_scaling_factor_def ..
  have c: "apk_scale_recipe rcp f = scale_recipe rcp f"
    unfolding apk_scale_recipe_def scale_recipe_def v l ..
  have d: "apk_format_amount a = format_amount a"
    unfolding apk_format_amount_def format_amount_def apk_fractions_def fractions_def ..
  from a b c d show ?thesis by blast
qed

end
